theory Spec2Isabelle
  imports Main
begin

section \<open>The character source\<close>

text \<open>
  The lexer reads its input through \<^verbatim>\<open>text/scanner.Scanner\<close>, of which it uses
  \<^verbatim>\<open>Peek\<close> (the next rune, or \<^verbatim>\<open>scanner.EOF = -1\<close> at the end of the input) and
  \<^verbatim>\<open>Next\<close> (advance by one rune; at the end of the input it stays there and returns
  \<^verbatim>\<open>EOF\<close> again). The scanner state is the input not yet read. A rune is a character
  or \<^verbatim>\<open>EOF\<close>, the latter written \<open>None\<close>. Characters are the 8-bit characters of HOL:
  the lexer tells runes apart by comparing them with ASCII characters only, so a rune
  beyond them is treated like any other character that is in none of its classes.
  The positions that \<^verbatim>\<open>SetPos\<close> stores in each fragment are computed by the library
  and read by none of the functions below; the fragments are modelled without them.
\<close>

type_synonym rune = "char option"

type_synonym Scanner = "string"

abbreviation EOF :: rune where
  "EOF \<equiv> None"

fun Peek :: "Scanner \<Rightarrow> rune" where
  "Peek [] = EOF"
| "Peek (c # cs) = Some c"

fun Next :: "Scanner \<Rightarrow> Scanner" where
  "Next [] = []"
| "Next (c # cs) = cs"

abbreviation tab :: char where
  "tab \<equiv> CHR 0x09"

abbreviation newline :: char where
  "newline \<equiv> CHR 0x0A"

abbreviation dquote :: char where
  "dquote \<equiv> CHR 0x22"

abbreviation squote :: char where
  "squote \<equiv> CHR 0x27"

abbreviation backslash :: char where
  "backslash \<equiv> CHR 0x5C"

section \<open>Fragments, errors and tokens\<close>

text \<open>
  Modelled from the spec: the fragment types of package \<^verbatim>\<open>ast\<close>, which the lexer
  imports and whose declarations are in another package (section 3, Data Model).
  The lexer builds them as \<^verbatim>\<open>ast.Ident{Name}\<close>, \<^verbatim>\<open>ast.VarExpr{Name}\<close>, \<^verbatim>\<open>ast.FD{N}\<close>, and
  \<^verbatim>\<open>ast.StrExpr\<close>, a slice of them.
\<close>

datatype Expr = Ident string | VarExpr string | FD int

type_synonym StrExpr = "Expr list"

text \<open>
  The errors a scan returns. \<^verbatim>\<open>strconv.Atoi\<close> fails with a \<^verbatim>\<open>NumError\<close> that wraps
  \<^verbatim>\<open>ErrSyntax\<close> or \<^verbatim>\<open>ErrRange\<close>.
\<close>

datatype NumError = ErrSyntax | ErrRange

datatype error =
    UnexpectedEOF
  | ExpectIdentError
  | ExpectVarNameError
  | AtoiError NumError

text \<open>
  Modelled from the spec: the named token codes, which the parser generator declares
  in the file it writes (section 3, Token). Token codes are integers in the
  source: the code of a rune for bare punctuation and for the end of the input
  (\<^verbatim>\<open>int(c)\<close>), and the named constants, which differ from each other and from every rune (\<open>STR_tok\<close> is the constant
  \<^verbatim>\<open>STR\<close>).
\<close>

datatype token =
    Code rune
  | STR_tok
  | STR_AND_LEFT_PAREN
  | RIGHT_PAREN_AND_STR
  | RIGHT_PAREN_AND_STR_AND_LEFT_PAREN
  | REDIRECT_TO_FD
  | APPEND_REDIRECT
  | ERR_REDIRECT_TO_FD
  | APPEND_ERR_REDIRECT
  | IF
  | ELSE
  | BEGIN
  | END
  | FUNCTION

definition keywords_map :: "(token \<times> string) list" where
  "keywords_map =
     [(IF, ''if''), (ELSE, ''else''), (BEGIN, ''begin''), (END, ''end''),
      (FUNCTION, ''function'')]"

section \<open>Character classes\<close>

definition singleQuotedSpecials :: "rune list" where
  "singleQuotedSpecials = [EOF, Some backslash, Some squote]"

definition doubleQuotedSpecials :: "rune list" where
  "doubleQuotedSpecials = [EOF, Some backslash, Some dquote, Some CHR ''$'']"

definition specials :: "rune list" where
  "specials =
     [EOF, Some tab, Some newline, Some CHR ''$'', Some CHR ''?'', Some CHR ''*'',
      Some CHR ''~'', Some CHR ''#'', Some CHR ''('', Some CHR '')'', Some CHR ''{'',
      Some CHR ''}'', Some CHR ''['', Some CHR '']'', Some CHR ''<'', Some CHR ''>'',
      Some CHR ''^'', Some CHR ''&'', Some CHR '';'', Some squote, Some dquote,
      Some backslash, Some CHR '' '']"

definition isSpecialChar :: "rune \<Rightarrow> bool" where
  "isSpecialChar c = (c \<in> set specials)"

definition isDoubleQuotedSpecialChar :: "rune \<Rightarrow> bool" where
  "isDoubleQuotedSpecialChar c = (c \<in> set doubleQuotedSpecials)"

definition isSingleQuotedSpecialChar :: "rune \<Rightarrow> bool" where
  "isSingleQuotedSpecialChar c = (c \<in> set singleQuotedSpecials)"

definition isSingleQuotedIdentChar :: "rune \<Rightarrow> bool" where
  "isSingleQuotedIdentChar c = (\<not> isSingleQuotedSpecialChar c)"

definition isDoubleQuotedIdentChar :: "rune \<Rightarrow> bool" where
  "isDoubleQuotedIdentChar c = (\<not> isDoubleQuotedSpecialChar c)"

definition isIdentChar :: "rune \<Rightarrow> bool" where
  "isIdentChar c = (\<not> isSpecialChar c)"

text \<open>The comparisons of \<^verbatim>\<open>isNumber\<close> and \<^verbatim>\<open>isLetter\<close> are on rune codes; \<^verbatim>\<open>EOF\<close> is \<open>-1\<close>.\<close>

definition runeCode :: "rune \<Rightarrow> int" where
  "runeCode c = (case c of None \<Rightarrow> - 1 | Some ch \<Rightarrow> of_char ch)"

definition isNumber :: "rune \<Rightarrow> bool" where
  "isNumber c = (of_char CHR ''0'' \<le> runeCode c \<and> runeCode c \<le> of_char CHR ''9'')"

definition isLetter :: "rune \<Rightarrow> bool" where
  "isLetter c =
     (of_char CHR ''a'' \<le> runeCode c \<and> runeCode c \<le> of_char CHR ''z'' \<or>
      of_char CHR ''A'' \<le> runeCode c \<and> runeCode c \<le> of_char CHR ''Z'')"

definition isBrank :: "rune \<Rightarrow> bool" where
  "isBrank c = (c = Some CHR '' '' \<or> c = Some tab)"

definition isVarChar :: "rune \<Rightarrow> bool" where
  "isVarChar c = (isLetter c \<or> isNumber c \<or> c = Some CHR ''_'')"

lemma run_classes_reject_EOF:
  "\<not> isIdentChar EOF \<and> \<not> isSingleQuotedIdentChar EOF \<and> \<not> isDoubleQuotedIdentChar EOF \<and>
   \<not> isVarChar EOF \<and> \<not> isNumber EOF"
  by (simp add: isIdentChar_def isSpecialChar_def specials_def isSingleQuotedIdentChar_def
      isSingleQuotedSpecialChar_def singleQuotedSpecials_def isDoubleQuotedIdentChar_def
      isDoubleQuotedSpecialChar_def doubleQuotedSpecials_def isVarChar_def isLetter_def
      isNumber_def runeCode_def)

section \<open>Literal runs, variables and quoted regions\<close>

text \<open>
  The five run loops of the source have one shape,
  \<^verbatim>\<open>for s.isXChar(s.Peek()) { ret = append(ret, s.Peek()); s.Next() }\<close>,
  and differ in the character class only. Every class rejects \<^verbatim>\<open>EOF\<close>
  (\<open>run_classes_reject_EOF\<close>), so the loop stops at the end of the input.
\<close>

fun scanRun :: "(rune \<Rightarrow> bool) \<Rightarrow> Scanner \<Rightarrow> string \<Rightarrow> string \<times> Scanner" where
  "scanRun isChar [] ret = (ret, [])"
| "scanRun isChar (c # cs) ret =
     (if isChar (Some c) then scanRun isChar cs (ret @ [c]) else (ret, c # cs))"

definition scanDoubleQuotedIdent :: "Scanner \<Rightarrow> error + Expr \<times> Scanner" where
  "scanDoubleQuotedIdent s =
     (case scanRun isDoubleQuotedIdentChar s [] of
        (ret, s') \<Rightarrow> if length ret = 0 then Inl ExpectIdentError else Inr (Ident ret, s'))"

definition scanSingleQuotedIdent :: "Scanner \<Rightarrow> error + Expr \<times> Scanner" where
  "scanSingleQuotedIdent s =
     (case scanRun isSingleQuotedIdentChar s [] of
        (ret, s') \<Rightarrow> if length ret = 0 then Inl ExpectIdentError else Inr (Ident ret, s'))"

definition scanIdent :: "Scanner \<Rightarrow> error + Expr \<times> Scanner" where
  "scanIdent s =
     (case scanRun isIdentChar s [] of
        (ret, s') \<Rightarrow> if length ret = 0 then Inl ExpectIdentError else Inr (Ident ret, s'))"

definition scanVar :: "Scanner \<Rightarrow> error + Expr \<times> Scanner" where
  "scanVar s =
     (case scanRun isVarChar (Next s) [] of
        (ret, s') \<Rightarrow> if length ret = 0 then Inl ExpectVarNameError else Inr (VarExpr ret, s'))"

lemma scanRun_length:
  "scanRun isChar s ret = (r, s') \<Longrightarrow> length s' + length r = length s + length ret"
  by (induction s arbitrary: ret) (auto split: if_splits)

lemma scanRun_shorter:
  "scanRun isChar s [] = (r, s') \<Longrightarrow> r \<noteq> [] \<Longrightarrow> length s' < length s"
  using scanRun_length [of isChar s "[]" r s'] by (cases r) auto

lemma scanDoubleQuotedIdent_shorter:
  "scanDoubleQuotedIdent s = Inr (ident, s') \<Longrightarrow> length s' < length s"
  by (auto simp: scanDoubleQuotedIdent_def split: prod.splits if_splits dest: scanRun_shorter)

lemma scanSingleQuotedIdent_shorter:
  "scanSingleQuotedIdent s = Inr (ident, s') \<Longrightarrow> length s' < length s"
  by (auto simp: scanSingleQuotedIdent_def split: prod.splits if_splits dest: scanRun_shorter)

lemma scanIdent_shorter:
  "scanIdent s = Inr (ident, s') \<Longrightarrow> length s' < length s"
  by (auto simp: scanIdent_def split: prod.splits if_splits dest: scanRun_shorter)

lemma scanVar_shorter:
  "scanVar s = Inr (vare, s') \<Longrightarrow> length s' < length (Next s)"
  by (auto simp: scanVar_def split: prod.splits if_splits dest: scanRun_shorter)

lemma Next_length: "length (Next s) \<le> length s"
  by (cases s) auto

lemma Next_shorter: "Peek s = Some c \<Longrightarrow> length (Next s) < length s"
  by (cases s) auto

function scanSingleQuoted_loop :: "Scanner \<Rightarrow> StrExpr \<Rightarrow> error + StrExpr \<times> Scanner" where
  "scanSingleQuoted_loop s str =
     (if Peek s = EOF then Inl UnexpectedEOF
      else if isSingleQuotedIdentChar (Peek s) then
        (case scanSingleQuotedIdent s of
           Inl err \<Rightarrow> Inl err
         | Inr (ident, s') \<Rightarrow> scanSingleQuoted_loop s' (str @ [ident]))
      else if Peek s = Some squote then Inr (str, Next s)
      else
        (case scanSingleQuotedIdent s of
           Inl err \<Rightarrow> Inl err
         | Inr (ident, s') \<Rightarrow> scanSingleQuoted_loop s' (str @ [ident])))"
  by pat_completeness auto
termination
  by (relation "measure (\<lambda>(s, str). length s)")
     (auto dest: scanSingleQuotedIdent_shorter)

declare scanSingleQuoted_loop.simps [simp del]

definition scanSingleQuoted :: "Scanner \<Rightarrow> error + StrExpr \<times> Scanner" where
  "scanSingleQuoted s = scanSingleQuoted_loop (Next s) []"

function scanDoubleQuoted_loop :: "Scanner \<Rightarrow> StrExpr \<Rightarrow> error + StrExpr \<times> Scanner" where
  "scanDoubleQuoted_loop s str =
     (if Peek s = EOF then Inl UnexpectedEOF
      else if isDoubleQuotedIdentChar (Peek s) then
        (case scanDoubleQuotedIdent s of
           Inl err \<Rightarrow> Inl err
         | Inr (ident, s') \<Rightarrow> scanDoubleQuoted_loop s' (str @ [ident]))
      else if Peek s = Some CHR ''$'' then
        (case scanVar s of
           Inl err \<Rightarrow> Inl err
         | Inr (vare, s') \<Rightarrow> scanDoubleQuoted_loop s' (str @ [vare]))
      else if Peek s = Some dquote then Inr (str, Next s)
      else
        (case scanDoubleQuotedIdent s of
           Inl err \<Rightarrow> Inl err
         | Inr (ident, s') \<Rightarrow> scanDoubleQuoted_loop s' (str @ [ident])))"
  by pat_completeness auto
termination
  by (relation "measure (\<lambda>(s, str). length s)")
     (auto dest!: scanDoubleQuotedIdent_shorter scanVar_shorter
           intro: less_le_trans [OF _ Next_length])

declare scanDoubleQuoted_loop.simps [simp del]

definition scanDoubleQuoted :: "Scanner \<Rightarrow> error + StrExpr \<times> Scanner" where
  "scanDoubleQuoted s = scanDoubleQuoted_loop (Next s) []"

lemma scanSingleQuoted_loop_length:
  "scanSingleQuoted_loop s acc = Inr (r, s') \<Longrightarrow> length s' \<le> length s"
proof (induction s acc rule: scanSingleQuoted_loop.induct)
  case (1 s acc)
  have nx: "length (Next s) \<le> length s"
    by (rule Next_length)
  from "1.prems" "1.IH" nx show ?case
    by (subst (asm) scanSingleQuoted_loop.simps)
       (fastforce split: if_splits sum.splits dest: scanSingleQuotedIdent_shorter)
qed

lemma scanDoubleQuoted_loop_length:
  "scanDoubleQuoted_loop s acc = Inr (r, s') \<Longrightarrow> length s' \<le> length s"
proof (induction s acc rule: scanDoubleQuoted_loop.induct)
  case (1 s acc)
  have nx: "length (Next s) \<le> length s"
    by (rule Next_length)
  from "1.prems" "1.IH" nx show ?case
    by (subst (asm) scanDoubleQuoted_loop.simps)
       (fastforce split: if_splits sum.splits
                  dest: scanDoubleQuotedIdent_shorter scanVar_shorter)
qed

lemma scanSingleQuoted_shorter:
  "Peek s = Some c \<Longrightarrow> scanSingleQuoted s = Inr (r, s') \<Longrightarrow> length s' < length s"
  unfolding scanSingleQuoted_def
  by (drule scanSingleQuoted_loop_length, drule Next_shorter) simp

lemma scanDoubleQuoted_shorter:
  "Peek s = Some c \<Longrightarrow> scanDoubleQuoted s = Inr (r, s') \<Longrightarrow> length s' < length s"
  unfolding scanDoubleQuoted_def
  by (drule scanDoubleQuoted_loop_length, drule Next_shorter) simp

section \<open>The word assembler\<close>

function scanStrs_loop ::
  "Scanner \<Rightarrow> bool \<Rightarrow> StrExpr \<Rightarrow> error + token \<times> StrExpr \<times> Scanner" where
  "scanStrs_loop s withRightParen str =
     (if Peek s = Some CHR ''$'' then
        (case scanVar s of
           Inl err \<Rightarrow> Inl err
         | Inr (vare, s') \<Rightarrow> scanStrs_loop s' withRightParen (str @ [vare]))
      else if Peek s = Some dquote then
        (case scanDoubleQuoted s of
           Inl err \<Rightarrow> Inl err
         | Inr (quotedStr, s') \<Rightarrow> scanStrs_loop s' withRightParen (str @ quotedStr))
      else if Peek s = Some squote then
        (case scanSingleQuoted s of
           Inl err \<Rightarrow> Inl err
         | Inr (quotedStr, s') \<Rightarrow> scanStrs_loop s' withRightParen (str @ quotedStr))
      else if Peek s = Some CHR '')'' then
        (if length str > 0 then Inr (STR_tok, str, s)
         else if withRightParen then
           (if length str = 0 then Inr (Code (Some CHR '')''), str, s)
            else Inr (RIGHT_PAREN_AND_STR, str, s))
         else scanStrs_loop (Next s) True str)
      else if Peek s = Some CHR ''('' then
        (if length str = 0 \<and> \<not> withRightParen then Inr (Code (Some CHR ''(''), str, Next s)
         else if withRightParen then Inr (RIGHT_PAREN_AND_STR_AND_LEFT_PAREN, str, Next s)
         else Inr (STR_AND_LEFT_PAREN, str, Next s))
      else if isSpecialChar (Peek s) then
        (if withRightParen then Inr (RIGHT_PAREN_AND_STR, str, s)
         else Inr (STR_tok, str, s))
      else
        (case scanIdent s of
           Inl err \<Rightarrow> Inl err
         | Inr (ident, s') \<Rightarrow> scanStrs_loop s' withRightParen (str @ [ident])))"
  by pat_completeness auto
termination
  by (relation "measure (\<lambda>(s, withRightParen, str). length s)")
     (auto dest!: scanVar_shorter scanIdent_shorter
           dest: scanDoubleQuoted_shorter scanSingleQuoted_shorter Next_shorter
           intro: less_le_trans [OF _ Next_length])

declare scanStrs_loop.simps [simp del]

definition scanStrs :: "Scanner \<Rightarrow> error + token \<times> StrExpr \<times> Scanner" where
  "scanStrs s = scanStrs_loop s False []"

section \<open>Blanks, comments and file descriptors\<close>

fun skipBrank :: "Scanner \<Rightarrow> Scanner" where
  "skipBrank [] = []"
| "skipBrank (c # cs) = (if isBrank (Some c) then skipBrank cs else c # cs)"

text \<open>
  \<^verbatim>\<open>for s.Peek() != '\n' { s.Next() }\<close> has no test for the end of the input, where
  \<^verbatim>\<open>Next\<close> stays: the loop need not return, and \<open>None\<close> is the run that does not.
\<close>

partial_function (option) skipComment :: "Scanner \<Rightarrow> Scanner option" where
  "skipComment s = (if Peek s \<noteq> Some newline then skipComment (Next s) else Some s)"

text \<open>
  \<^verbatim>\<open>strconv.Atoi\<close> belongs to the Go standard library. By its documentation it reads an
  optional sign and a non-empty run of decimal digits, failing with \<^verbatim>\<open>ErrSyntax\<close> on
  anything else, and fails with \<^verbatim>\<open>ErrRange\<close> when the value does not fit an \<^verbatim>\<open>int\<close>
  (\<^verbatim>\<open>strconv.IntSize\<close> bits, 64 on the usual platforms).
\<close>

definition intSize :: nat where
  "intSize = 64"

fun digitsValue :: "string \<Rightarrow> nat \<Rightarrow> nat" where
  "digitsValue [] n = n"
| "digitsValue (c # cs) n = digitsValue cs (n * 10 + (of_char c - of_char CHR ''0''))"

definition Atoi :: "string \<Rightarrow> error + int" where
  "Atoi s0 =
     (let neg = (case s0 of [] \<Rightarrow> False | c # cs \<Rightarrow> c = CHR ''-'');
          s = (case s0 of [] \<Rightarrow> s0 | c # cs \<Rightarrow> if c = CHR ''-'' \<or> c = CHR ''+'' then cs else s0)
      in if length s < 1 then Inl (AtoiError ErrSyntax)
         else if list_ex (\<lambda>c. \<not> isNumber (Some c)) s then Inl (AtoiError ErrSyntax)
         else
           (let n = (if neg then - int (digitsValue s 0) else int (digitsValue s 0))
            in if n < - (2 ^ (intSize - 1)) \<or> 2 ^ (intSize - 1) - 1 < n
               then Inl (AtoiError ErrRange)
               else Inr n))"

definition scanFD :: "Scanner \<Rightarrow> error + Expr \<times> Scanner" where
  "scanFD s0 =
     (let s = Next s0
      in if Peek s = Some CHR ''-'' then Inr (FD (- 1), s)
         else
           (case scanRun isNumber s [] of
              (ret, s') \<Rightarrow>
                (case Atoi ret of
                   Inl err \<Rightarrow> Inl err
                 | Inr n \<Rightarrow> Inr (FD n, s'))))"

section \<open>Keywords and the next-token operation\<close>

fun tokenOf_lit :: "StrExpr \<Rightarrow> string \<Rightarrow> string option" where
  "tokenOf_lit [] lit = Some lit"
| "tokenOf_lit (Ident name # e) lit = tokenOf_lit e (lit @ name)"
| "tokenOf_lit (v # e) lit = None"

definition tokenOf :: "StrExpr \<Rightarrow> token option" where
  "tokenOf e =
     (case tokenOf_lit e [] of
        None \<Rightarrow> None
      | Some lit \<Rightarrow> map_option fst (find (\<lambda>(tok, l). l = lit) keywords_map))"

text \<open>
  The words of the keyword rule: a fragment that is an \<^verbatim>\<open>Ident\<close>, and the text of a
  fragment, to be concatenated over a word.
\<close>

fun isIdentFragment :: "Expr \<Rightarrow> bool" where
  "isIdentFragment (Ident name) = True"
| "isIdentFragment (VarExpr name) = False"
| "isIdentFragment (FD n) = False"

fun fragmentText :: "Expr \<Rightarrow> string" where
  "fragmentText (Ident name) = name"
| "fragmentText (VarExpr name) = name"
| "fragmentText (FD n) = []"

text \<open>
  Modelled from the spec: the semantic value \<^verbatim>\<open>yySymType\<close> that the generated parser
  passes to the lexer (the token payload of section 3). \<^verbatim>\<open>mainLex\<close> assigns its fields
  \<^verbatim>\<open>str\<close> and \<^verbatim>\<open>expr\<close> and leaves it alone otherwise.
\<close>

record yySymType =
  str :: StrExpr
  expr :: StrExpr

partial_function (option) mainLex ::
  "Scanner \<Rightarrow> yySymType \<Rightarrow> (error + token \<times> yySymType \<times> Scanner) option" where
  "mainLex s0 lval =
     (let s = skipBrank s0; c = Peek s
      in if c = EOF then Some (Inr (Code c, lval, s))
         else if c = Some CHR ''#'' then
           Option.bind (skipComment s) (\<lambda>s'. mainLex s' lval)
         else if c = Some CHR ''>'' then
           (let s1 = Next s
            in if Peek s1 = Some CHR ''&'' then
                 (case scanFD s1 of
                    Inl err \<Rightarrow> Some (Inl err)
                  | Inr (fd, s2) \<Rightarrow> Some (Inr (REDIRECT_TO_FD, lval\<lparr>expr := [fd]\<rparr>, s2)))
               else if Peek s1 = Some CHR ''>'' then Some (Inr (APPEND_REDIRECT, lval, s1))
               else Some (Inr (Code (Some CHR ''>''), lval, s1)))
         else if c = Some CHR ''^'' then
           (let s1 = Next s
            in if Peek s1 = Some CHR ''&'' then
                 (case scanFD s1 of
                    Inl err \<Rightarrow> Some (Inl err)
                  | Inr (fd, s2) \<Rightarrow> Some (Inr (ERR_REDIRECT_TO_FD, lval\<lparr>expr := [fd]\<rparr>, s2)))
               else if Peek s1 = Some CHR ''^'' then Some (Inr (APPEND_ERR_REDIRECT, lval, s1))
               else Some (Inr (Code (Some CHR ''^''), lval, s1)))
         else if c = Some CHR '';'' \<or> c = Some newline \<or> c = Some CHR ''|'' \<or> c = Some CHR ''<''
         then Some (Inr (Code c, lval, Next s))
         else
           (case scanStrs s of
              Inl err \<Rightarrow> Some (Inl err)
            | Inr (tok, v, s1) \<Rightarrow>
                if tok \<noteq> STR_tok then Some (Inr (tok, lval\<lparr>str := v\<rparr>, s1))
                else
                  (case tokenOf v of
                     Some tok' \<Rightarrow> Some (Inr (tok', lval, s1))
                   | None \<Rightarrow> Some (Inr (STR_tok, lval\<lparr>str := v\<rparr>, s1)))))"

section \<open>The walker\<close>

text \<open>
  Modelled from the spec: the AST node family, whose type declarations are in
  another file of the package (section 3, AST Node): sequences of expressions and of
  statements, command invocation, block, conditional, function definition, pipeline
  and redirection. \<open>Leaf\<close> stands for a node of any other kind (the expression leaves),
  for which the type switch of \<^verbatim>\<open>Walk\<close> has no case, and \<open>NilNode\<close> for the nil
  interface value, which is also the exit marker a visitor is called with.
\<close>

datatype Node =
    NilNode
  | Leaf StrExpr
  | Exprs "Node list"
  | Stmts "Node list"
  | CmdStmt Node "Node list"
  | BeginStmt "Node list"
  | IfStmt Node "Node list" "Node list"
  | FunctionStmt "Node list" "Node list"
  | PipeStmt Node Node
  | RedirectStmt Node Node

text \<open>
  \<^verbatim>\<open>type Visitor func(Node) Visitor\<close>: a callback that returns the callback for the
  children, or nil. A Go closure may read and write state of its own, which is
  passed explicitly here (\<open>'st\<close>). A nil visitor is \<open>None\<close>.
\<close>

codatatype 'st Visitor =
  Visitor (visit: "Node \<Rightarrow> 'st \<Rightarrow> 'st Visitor option \<times> 'st")

text \<open>
  \<^verbatim>\<open>type inspector func(Node) bool\<close> with its method \<^verbatim>\<open>visit\<close>, which returns itself
  when the callback says true and nil otherwise.
\<close>

primcorec inspector_visit :: "(Node \<Rightarrow> 'st \<Rightarrow> bool \<times> 'st) \<Rightarrow> 'st Visitor" where
  "visit (inspector_visit f) =
     (\<lambda>node st. case f node st of
        (b, st') \<Rightarrow> (if b then Some (inspector_visit f) else None, st'))"

text \<open>
  What a walk does to the world is the callback's state and the calls made so far:
  the log lists the argument of every call, a node for an entry and \<open>NilNode\<close> for an
  exit. Calling a nil function value panics.
\<close>

datatype fault = NilFuncCall

type_synonym 'st world = "'st \<times> Node list"

definition call :: "'st Visitor \<Rightarrow> Node \<Rightarrow> 'st world \<Rightarrow> 'st Visitor option \<times> 'st world" where
  "call v node w =
     (case visit v node (fst w) of (f, st') \<Rightarrow> (f, (st', snd w @ [node])))"

fun weight :: "Node \<Rightarrow> nat" where
  "weight NilNode = 1"
| "weight (Leaf e) = 1"
| "weight (Exprs n) = 1 + sum_list (map weight n)"
| "weight (Stmts n) = 1 + sum_list (map weight n)"
| "weight (CmdStmt cmd args) = 2 + weight cmd + sum_list (map weight args)"
| "weight (BeginStmt body) = 2 + sum_list (map weight body)"
| "weight (IfStmt cond body els) =
     2 + weight cond + sum_list (map weight body) + sum_list (map weight els)"
| "weight (FunctionStmt args body) =
     2 + sum_list (map weight args) + sum_list (map weight body)"
| "weight (PipeStmt lhs rhs) = 2 + weight lhs + weight rhs"
| "weight (RedirectStmt lhs rhs) = 2 + weight lhs + weight rhs"

lemma weight_pos: "0 < weight n"
  by (cases n) auto

text \<open>
  \<open>walkRange\<close> is the loop \<^verbatim>\<open>for _, e := range n { Walk(f, e) }\<close> of the two sequence
  cases.
\<close>

function Walk :: "'st Visitor option \<Rightarrow> Node \<Rightarrow> 'st world \<Rightarrow> fault + 'st world"
  and walkRange :: "'st Visitor option \<Rightarrow> Node list \<Rightarrow> 'st world \<Rightarrow> fault + 'st world"
  and walkStmts :: "'st Visitor option \<Rightarrow> Node list \<Rightarrow> 'st world \<Rightarrow> fault + 'st world"
  and walkExprs :: "'st Visitor option \<Rightarrow> Node list \<Rightarrow> 'st world \<Rightarrow> fault + 'st world"
where
  "Walk v node w =
     (if node = NilNode then Inr w
      else
        (case v of
           None \<Rightarrow> Inl NilFuncCall
         | Some vf \<Rightarrow>
             (case call vf node w of
                (f, w1) \<Rightarrow>
                  (case
                     (case node of
                        Exprs n \<Rightarrow> walkRange f n w1
                      | Stmts n \<Rightarrow> walkRange f n w1
                      | CmdStmt cmd args \<Rightarrow>
                          (case Walk f cmd w1 of
                             Inl p \<Rightarrow> Inl p
                           | Inr w2 \<Rightarrow> walkExprs f args w2)
                      | BeginStmt body \<Rightarrow> Walk f (Stmts body) w1
                      | IfStmt cond body els \<Rightarrow>
                          (case Walk f cond w1 of
                             Inl p \<Rightarrow> Inl p
                           | Inr w2 \<Rightarrow>
                               (case walkStmts f body w2 of
                                  Inl p \<Rightarrow> Inl p
                                | Inr w3 \<Rightarrow> walkStmts f els w3))
                      | FunctionStmt args body \<Rightarrow>
                          (case walkExprs f args w1 of
                             Inl p \<Rightarrow> Inl p
                           | Inr w2 \<Rightarrow> walkStmts f body w2)
                      | PipeStmt lhs rhs \<Rightarrow>
                          (case Walk f lhs w1 of
                             Inl p \<Rightarrow> Inl p
                           | Inr w2 \<Rightarrow> Walk f rhs w2)
                      | RedirectStmt lhs rhs \<Rightarrow>
                          (case Walk f lhs w1 of
                             Inl p \<Rightarrow> Inl p
                           | Inr w2 \<Rightarrow> Walk f rhs w2)
                      | _ \<Rightarrow> Inr w1)
                   of
                     Inl p \<Rightarrow> Inl p
                   | Inr w' \<Rightarrow> Inr (snd (call vf NilNode w'))))))"
| "walkRange f [] w = Inr w"
| "walkRange f (e # n) w =
     (case Walk f e w of
        Inl p \<Rightarrow> Inl p
      | Inr w1 \<Rightarrow> walkRange f n w1)"
| "walkStmts f stmts w = (if length stmts > 0 then Walk f (Stmts stmts) w else Inr w)"
| "walkExprs f exprs w = (if length exprs > 0 then Walk f (Exprs exprs) w else Inr w)"
  by pat_completeness auto
termination
  by (relation "measure (\<lambda>x. case x of
          Inl (Inl (v, node, w)) \<Rightarrow> 2 * weight node
        | Inl (Inr (f, n, w)) \<Rightarrow> 2 * sum_list (map weight n) + 1
        | Inr (Inl (f, stmts, w)) \<Rightarrow> 2 * sum_list (map weight stmts) + 3
        | Inr (Inr (f, exprs, w)) \<Rightarrow> 2 * sum_list (map weight exprs) + 3)")
     (auto simp: weight_pos)

declare Walk.simps [simp del]

definition Inspect ::
  "Node \<Rightarrow> (Node \<Rightarrow> 'st \<Rightarrow> bool \<times> 'st) \<Rightarrow> 'st world \<Rightarrow> fault + 'st world" where
  "Inspect node f w = Walk (Some (inspector_visit f)) node w"

text \<open>
  The words of the bracketing property, read off the log of a walk. An entry is a
  call on a node and an exit a call on the exit marker. \<open>nested d tr\<close> says that \<open>tr\<close>,
  read from depth \<open>d\<close>, never exits below depth zero and ends at depth zero: every
  exit closes the nearest open entry, and every entry is closed. A visitor never
  signals stop when on every node it returns a continuation that never signals stop
  either.
\<close>

fun nested :: "nat \<Rightarrow> Node list \<Rightarrow> bool" where
  "nested d [] = (d = 0)"
| "nested d (n # tr) =
     (if n = NilNode then 0 < d \<and> nested (d - 1) tr else nested (Suc d) tr)"

definition entries :: "Node list \<Rightarrow> nat" where
  "entries tr = length (filter (\<lambda>n. n \<noteq> NilNode) tr)"

definition exits :: "Node list \<Rightarrow> nat" where
  "exits tr = length (filter (\<lambda>n. n = NilNode) tr)"

coinductive never_stops :: "'st Visitor \<Rightarrow> bool" where
  "(\<And>node st. node \<noteq> NilNode \<Longrightarrow> \<exists>f. fst (visit v node st) = Some f \<and> never_stops f)
   \<Longrightarrow> never_stops v"

text \<open>
  The nodes that \<^verbatim>\<open>Walk\<close> walks for a node, in the order of its type switch: the
  elements of a sequence; the command and, through \<^verbatim>\<open>walkExprs\<close>, the arguments of a
  command; the body of a block; the condition of a conditional and, through
  \<^verbatim>\<open>walkStmts\<close>, its two bodies; the parameters and the body of a function
  definition; the two sides of a pipeline and of a redirection. \<^verbatim>\<open>walkStmts\<close> and
  \<^verbatim>\<open>walkExprs\<close> leave an empty sequence out; the block case does not.
\<close>

fun children :: "Node \<Rightarrow> Node list" where
  "children (Exprs n) = n"
| "children (Stmts n) = n"
| "children (CmdStmt cmd args) = cmd # (if length args > 0 then [Exprs args] else [])"
| "children (BeginStmt body) = [Stmts body]"
| "children (IfStmt cond body els) =
     cond # (if length body > 0 then [Stmts body] else []) @
       (if length els > 0 then [Stmts els] else [])"
| "children (FunctionStmt args body) =
     (if length args > 0 then [Exprs args] else []) @
       (if length body > 0 then [Stmts body] else [])"
| "children (PipeStmt lhs rhs) = [lhs, rhs]"
| "children (RedirectStmt lhs rhs) = [lhs, rhs]"
| "children node = []"

lemma weight_member: "n \<in> set ns \<Longrightarrow> weight n \<le> sum_list (map weight ns)"
  by (induction ns) auto

lemma children_weight: "c \<in> set (children node) \<Longrightarrow> weight c < weight node"
  by (cases node) (auto split: if_splits dest: weight_member)

text \<open>
  The bracketing that the property speaks of: the entry of a node, the bracketings of
  its children one after the other, and the exit of the node; nothing for nil. The
  pair of every child lies inside the pair of its parent by construction.
\<close>

function brackets :: "Node \<Rightarrow> Node list" where
  "brackets node =
     (if node = NilNode then []
      else node # concat (map brackets (children node)) @ [NilNode])"
  by pat_completeness auto
termination
  by (relation "measure weight") (auto dest: children_weight)

declare brackets.simps [simp del]

text \<open>
  A way to walk (a function of the visitor and the world) walks to a trace when, for
  every visitor that never stops, it returns and adds exactly that trace to the log.
\<close>

definition walks_to ::
  "('st Visitor option \<Rightarrow> 'st world \<Rightarrow> fault + 'st world) \<Rightarrow> Node list \<Rightarrow> bool" where
  "walks_to run tr \<longleftrightarrow>
     (\<forall>v st log. never_stops v \<longrightarrow> (\<exists>st'. run (Some v) (st, log) = Inr (st', log @ tr)))"

section \<open>Evaluation\<close>

lemmas char_classes =
  isSpecialChar_def specials_def isIdentChar_def isDoubleQuotedIdentChar_def
  isDoubleQuotedSpecialChar_def doubleQuotedSpecials_def isSingleQuotedIdentChar_def
  isSingleQuotedSpecialChar_def singleQuotedSpecials_def isVarChar_def isLetter_def
  isNumber_def runeCode_def isBrank_def

lemmas scan_defs =
  scanDoubleQuotedIdent_def scanSingleQuotedIdent_def scanIdent_def scanVar_def
  scanDoubleQuoted_def scanSingleQuoted_def scanDoubleQuoted_loop.simps
  scanSingleQuoted_loop.simps scanStrs_def scanStrs_loop.simps scanFD_def Atoi_def
  intSize_def tokenOf_def keywords_map_def

lemmas walk_defs = Inspect_def Walk.simps call_def

section \<open>The parenthesis fusion on \<^verbatim>\<open>echo(x)\<close>\<close>



section \<open>Redirection operators\<close>

text \<open>
  Claim C4 says that each of \<^verbatim>\<open>>&-\<close>, \<^verbatim>\<open>>&3\<close> and \<^verbatim>\<open>>>\<close> lexes as one token
  that consumes the whole operator. The code returns the right first token for each,
  but only \<^verbatim>\<open>>&3\<close> is consumed whole: after \<^verbatim>\<open>>>\<close> the second \<^verbatim>\<open>>\<close> is still
  unread and the next call returns it as a plain \<^verbatim>\<open>>\<close>; after \<^verbatim>\<open>>&-\<close> the \<^verbatim>\<open>-\<close>
  is still unread and the next call returns it as a word.
\<close>

theorem lex_redirects:
  "mainLex ''>>'' lval = Some (Inr (APPEND_REDIRECT, lval, ''>'')) \<and>
   mainLex ''>'' lval = Some (Inr (Code (Some CHR ''>''), lval, [])) \<and>
   mainLex ''>&-'' lval = Some (Inr (REDIRECT_TO_FD, lval\<lparr>expr := [FD (- 1)]\<rparr>, ''-'')) \<and>
   mainLex ''-'' (lval\<lparr>expr := [FD (- 1)]\<rparr>) =
     Some (Inr (STR_tok, lval\<lparr>expr := [FD (- 1)], str := [Ident ''-'']\<rparr>, [])) \<and>
   mainLex ''>&3'' lval = Some (Inr (REDIRECT_TO_FD, lval\<lparr>expr := [FD 3]\<rparr>, []))"
proof (intro conjI)
  show "mainLex ''>>'' lval = Some (Inr (APPEND_REDIRECT, lval, ''>''))"
    by (subst mainLex.simps) (simp add: scan_defs char_classes)
  show "mainLex ''>'' lval = Some (Inr (Code (Some CHR ''>''), lval, []))"
    by (subst mainLex.simps) (simp add: scan_defs char_classes)
  show "mainLex ''>&-'' lval = Some (Inr (REDIRECT_TO_FD, lval\<lparr>expr := [FD (- 1)]\<rparr>, ''-''))"
    by (subst mainLex.simps) (simp add: scan_defs char_classes)
  show "mainLex ''-'' (lval\<lparr>expr := [FD (- 1)]\<rparr>) =
     Some (Inr (STR_tok, lval\<lparr>expr := [FD (- 1)], str := [Ident ''-'']\<rparr>, []))"
    by (subst mainLex.simps) (simp add: scan_defs char_classes)
  show "mainLex ''>&3'' lval = Some (Inr (REDIRECT_TO_FD, lval\<lparr>expr := [FD 3]\<rparr>, []))"
    by (subst mainLex.simps) (simp add: scan_defs char_classes)
qed

section \<open>Comments\<close>

lemma skipComment_newline:
  assumes "skipComment s = Some t"
  shows "newline \<in> set s \<and> Peek t = Some newline"
  using assms
proof (rule skipComment.raw_induct
    [where P = "\<lambda>s t. newline \<in> set s \<and> Peek t = Some newline", rotated])
  fix f s t
  assume IH: "\<And>x y. f x = Some y \<Longrightarrow> newline \<in> set x \<and> Peek y = Some newline"
    and eq: "(if Peek s \<noteq> Some newline then f (Next s) else Some s) = Some t"
  show "newline \<in> set s \<and> Peek t = Some newline"
  proof (cases s)
    case Nil
    with eq have "f [] = Some t" by simp
    from IH [OF this] show ?thesis by simp
  next
    case (Cons c cs)
    show ?thesis
    proof (cases "c = newline")
      case True
      with eq Cons show ?thesis by auto
    next
      case False
      with eq Cons have "f cs = Some t" by simp
      from IH [OF this] Cons show ?thesis by simp
    qed
  qed
qed

text \<open>
  Claim C6 says that the next-token operation terminates on every input and that a
  comment on the last line, with no newline after it, is skipped through the end of
  the input. On such an input \<^verbatim>\<open>skipComment\<close> waits for a newline that never comes:
  the call does not return. (A comment that a newline ends is skipped, and the retry
  returns the newline token.)
\<close>

theorem comment_at_end_diverges:
  "mainLex ''# last line'' lval = None \<and>
   mainLex (''# note'' @ [newline] @ ''x'') lval = Some (Inr (Code (Some newline), lval, ''x''))"
proof
  have "skipComment ''# last line'' = None"
    using skipComment_newline [of "''# last line''"]
    by (cases "skipComment ''# last line''") auto
  then show "mainLex ''# last line'' lval = None"
    by (subst mainLex.simps) (simp add: char_classes)
  have skip: "skipComment (''# note'' @ [newline] @ ''x'') = Some (newline # ''x'')"
    by (simp add: skipComment.simps)
  have "mainLex (newline # ''x'') lval = Some (Inr (Code (Some newline), lval, ''x''))"
    by (subst mainLex.simps) (simp add: char_classes)
  with skip
  show "mainLex (''# note'' @ [newline] @ ''x'') lval =
      Some (Inr (Code (Some newline), lval, ''x''))"
    by (subst mainLex.simps) (simp add: char_classes)
qed

section \<open>Stopping a walk, and empty bodies\<close>

text \<open>
  Claim C7 says that after a callback signals stop on a node the children are skipped
  and the walk goes on. \<^verbatim>\<open>Walk\<close> passes the nil continuation on to the children
  instead, and the first child that is not nil is visited by calling nil: the walk
  panics. Both forms of the callback do so, the boolean one through \<^verbatim>\<open>Inspect\<close> and
  the continuation-returning one.
\<close>

theorem stop_on_node_with_child_faults:
  "Inspect (CmdStmt (Leaf [Ident ''echo'']) [Leaf [Ident ''x'']])
     (\<lambda>node st. (False, st)) (st, []) = Inl NilFuncCall \<and>
   Walk (Some (Visitor (\<lambda>node st. (None, st))))
     (CmdStmt (Leaf [Ident ''echo'']) [Leaf [Ident ''x'']]) (st, []) = Inl NilFuncCall"
  by (simp add: walk_defs)

text \<open>
  Claim C8 says that an empty body is skipped without a call on the empty sequence,
  for a block as for a conditional or a function definition. The block case walks its
  body without the length test of \<^verbatim>\<open>walkStmts\<close>: the callback is called on the empty
  sequence of a block with an empty body, and then for its exit. The empty bodies of
  a conditional and of a function definition are skipped.
\<close>

theorem empty_block_body_visited:
  "Inspect (BeginStmt []) (\<lambda>node st. (True, st)) (st, []) =
     Inr (st, [BeginStmt [], Stmts [], NilNode, NilNode]) \<and>
   Inspect (IfStmt (Leaf [Ident ''c'']) [] []) (\<lambda>node st. (True, st)) (st, []) =
     Inr (st, [IfStmt (Leaf [Ident ''c'']) [] [], Leaf [Ident ''c''], NilNode, NilNode]) \<and>
   Inspect (FunctionStmt [] []) (\<lambda>node st. (True, st)) (st, []) =
     Inr (st, [FunctionStmt [] [], NilNode])"
  by (simp add: walk_defs)

section \<open>Keyword resolution\<close>

lemma tokenOf_lit_eq:
  "tokenOf_lit e lit =
     (if list_all isIdentFragment e then Some (lit @ concat (map fragmentText e)) else None)"
proof (induction e arbitrary: lit)
  case Nil
  show ?case by simp
next
  case (Cons v e)
  then show ?case by (cases v) simp_all
qed

lemma tokenOf_eq:
  "tokenOf e =
     (if list_all isIdentFragment e
      then map_option fst (find (\<lambda>(tok, l). l = concat (map fragmentText e)) keywords_map)
      else None)"
  by (simp add: tokenOf_def tokenOf_lit_eq)

lemma find_keyword:
  "map_option fst (find (\<lambda>(tok, l). l = lit) keywords_map) = Some kw \<longleftrightarrow>
     (kw, lit) \<in> {(IF, ''if''), (ELSE, ''else''), (BEGIN, ''begin''), (END, ''end''),
                  (FUNCTION, ''function'')}"
  by (auto simp: keywords_map_def)

lemma find_keyword_None:
  "map_option fst (find (\<lambda>(tok, l). l = lit) keywords_map) = None \<longleftrightarrow>
     lit \<notin> {''if'', ''else'', ''begin'', ''end'', ''function''}"
  by (auto simp: keywords_map_def)

text \<open>
  Claim C10. A word that the word assembler returns as a word token becomes a
  keyword token, with the semantic value left as it was, if and only if every
  fragment is an \<^verbatim>\<open>Ident\<close> and the concatenated text is one of \<^verbatim>\<open>if\<close>, \<^verbatim>\<open>else\<close>,
  \<^verbatim>\<open>begin\<close>, \<^verbatim>\<open>end\<close>, \<^verbatim>\<open>function\<close>; otherwise it stays a word token with the word as
  payload. The bare word \<^verbatim>\<open>if\<close> gives the keyword, \<^verbatim>\<open>i$f\<close> a word token.
\<close>

theorem keyword_resolution:
  assumes look: "Peek (skipBrank s) \<notin>
      {EOF, Some CHR ''#'', Some CHR ''>'', Some CHR ''^'', Some CHR '';'', Some newline,
       Some CHR ''|'', Some CHR ''<''}"
    and word: "scanStrs (skipBrank s) = Inr (STR_tok, v, s1)"
  shows "(list_all isIdentFragment v \<and>
            (kw, concat (map fragmentText v)) \<in>
              {(IF, ''if''), (ELSE, ''else''), (BEGIN, ''begin''), (END, ''end''),
               (FUNCTION, ''function'')} \<longrightarrow>
          mainLex s lval = Some (Inr (kw, lval, s1))) \<and>
         (\<not> (list_all isIdentFragment v \<and>
              concat (map fragmentText v) \<in>
                {''if'', ''else'', ''begin'', ''end'', ''function''}) \<longrightarrow>
          mainLex s lval = Some (Inr (STR_tok, lval\<lparr>str := v\<rparr>, s1))) \<and>
         mainLex ''if'' lval = Some (Inr (IF, lval, [])) \<and>
         mainLex ''i$f'' lval =
           Some (Inr (STR_tok, lval\<lparr>str := [Ident ''i'', VarExpr ''f'']\<rparr>, []))"
proof (intro conjI impI)
  assume kw: "list_all isIdentFragment v \<and>
      (kw, concat (map fragmentText v)) \<in>
        {(IF, ''if''), (ELSE, ''else''), (BEGIN, ''begin''), (END, ''end''),
         (FUNCTION, ''function'')}"
  then have "tokenOf v = Some kw"
    using find_keyword [of "concat (map fragmentText v)" kw] by (simp add: tokenOf_eq)
  with look word show "mainLex s lval = Some (Inr (kw, lval, s1))"
    by (subst mainLex.simps) (auto simp: Let_def)
next
  assume "\<not> (list_all isIdentFragment v \<and>
      concat (map fragmentText v) \<in> {''if'', ''else'', ''begin'', ''end'', ''function''})"
  then have "tokenOf v = None"
    using find_keyword_None [of "concat (map fragmentText v)"] by (auto simp: tokenOf_eq)
  with look word show "mainLex s lval = Some (Inr (STR_tok, lval\<lparr>str := v\<rparr>, s1))"
    by (subst mainLex.simps) (auto simp: Let_def)
next
  show "mainLex ''if'' lval = Some (Inr (IF, lval, []))"
    by (subst mainLex.simps) (simp add: scan_defs char_classes)
next
  show "mainLex ''i$f'' lval =
      Some (Inr (STR_tok, lval\<lparr>str := [Ident ''i'', VarExpr ''f'']\<rparr>, []))"
    by (subst mainLex.simps) (simp add: scan_defs char_classes)
qed

text \<open>
  Claim C10 at \<^verbatim>\<open>else\<close> after a blank, and at \<^verbatim>\<open>el$se\<close>.
\<close>

theorem keyword_resolution_witness:
  "mainLex '' else x'' \<lparr>str = [], expr = []\<rparr> =
     Some (Inr (ELSE, \<lparr>str = [], expr = []\<rparr>, '' x'')) \<and>
   mainLex ''el$se'' \<lparr>str = [], expr = []\<rparr> =
     Some (Inr (STR_tok, \<lparr>str = [Ident ''el'', VarExpr ''se''], expr = []\<rparr>, []))"
proof
  have w1: "scanStrs (skipBrank '' else x'') = Inr (STR_tok, [Ident ''else''], '' x'')"
    by (simp add: scan_defs char_classes)
  have l1: "Peek (skipBrank '' else x'') \<notin>
      {EOF, Some CHR ''#'', Some CHR ''>'', Some CHR ''^'', Some CHR '';'', Some newline,
       Some CHR ''|'', Some CHR ''<''}"
    by (simp add: char_classes)
  show "mainLex '' else x'' \<lparr>str = [], expr = []\<rparr> =
     Some (Inr (ELSE, \<lparr>str = [], expr = []\<rparr>, '' x''))"
    using keyword_resolution [OF l1 w1, of ELSE "\<lparr>str = [], expr = []\<rparr>"] by simp
  have w2: "scanStrs (skipBrank ''el$se'') = Inr (STR_tok, [Ident ''el'', VarExpr ''se''], [])"
    by (simp add: scan_defs char_classes)
  have l2: "Peek (skipBrank ''el$se'') \<notin>
      {EOF, Some CHR ''#'', Some CHR ''>'', Some CHR ''^'', Some CHR '';'', Some newline,
       Some CHR ''|'', Some CHR ''<''}"
    by (simp add: char_classes)
  show "mainLex ''el$se'' \<lparr>str = [], expr = []\<rparr> =
     Some (Inr (STR_tok, \<lparr>str = [Ident ''el'', VarExpr ''se''], expr = []\<rparr>, []))"
    using keyword_resolution [OF l2 w2, of IF "\<lparr>str = [], expr = []\<rparr>"] by simp
qed

section \<open>File descriptors\<close>

lemma scanRun_eq:
  "scanRun isChar s ret =
     (ret @ takeWhile (\<lambda>c. isChar (Some c)) s, dropWhile (\<lambda>c. isChar (Some c)) s)"
  by (induction s arbitrary: ret) auto

lemma digit_not_sign: "isNumber (Some c) \<Longrightarrow> c \<noteq> CHR ''-'' \<and> c \<noteq> CHR ''+''"
  by (auto simp: isNumber_def runeCode_def)

lemma Atoi_digits:
  assumes "list_all (\<lambda>c. isNumber (Some c)) ret"
  shows "Atoi ret =
     (if ret = [] then Inl (AtoiError ErrSyntax)
      else if 2 ^ 63 \<le> digitsValue ret 0 then Inl (AtoiError ErrRange)
      else Inr (int (digitsValue ret 0)))"
proof (cases ret)
  case Nil
  then show ?thesis by (simp add: Atoi_def)
next
  case (Cons c cs)
  with assms have c: "c \<noteq> CHR ''-''" "c \<noteq> CHR ''+''" and all: "\<not> list_ex (\<lambda>c. \<not> isNumber (Some c)) (c # cs)"
    by (auto dest: digit_not_sign simp: list_all_iff list_ex_iff)
  have "(int (digitsValue (c # cs) 0) < - (2 ^ 63)) = False"
    by (smt (verit) of_nat_0_le_iff zero_le_power)
  moreover have "((2::int) ^ 63 - 1 < int (digitsValue (c # cs) 0)) = ((2::nat) ^ 63 \<le> digitsValue (c # cs) 0)"
    by auto
  ultimately show ?thesis
    using c all unfolding Cons Atoi_def intSize_def Let_def
    by (simp del: digitsValue.simps list_ex_Cons_iff)
qed

text \<open>
  Claim C5 as stated fails: the conversion is reached with an empty run as soon as
  \<^verbatim>\<open>>&\<close> is followed by a character that is neither \<^verbatim>\<open>-\<close> nor a digit, and
  \<^verbatim>\<open>Atoi\<close> rejects the empty string. On \<^verbatim>\<open>>&x\<close> the next-token operation returns the
  conversion error.
\<close>

theorem scanFD_conversion_counterexample:
  "mainLex ''>&x'' \<lparr>str = [], expr = []\<rparr> = Some (Inl (AtoiError ErrSyntax)) \<and>
   scanRun isNumber (Next ''&x'') [] = ([], ''x'') \<and>
   scanFD ''&x'' = Inl (AtoiError ErrSyntax)"
  by (subst mainLex.simps) (simp add: scan_defs char_classes)

text \<open>
  Claim C5, as amended: wherever \<^verbatim>\<open>scanFD\<close> reaches the conversion, the run it
  collected consists of digit characters only. The conversion succeeds exactly when
  the run is not empty and its value is below \<open>2 ^ 63\<close>, and \<^verbatim>\<open>scanFD\<close> then returns
  the descriptor with that value; on an empty run it returns the syntax error of the
  conversion and on a larger value its range error.
\<close>

theorem scanFD_conversion:
  assumes "Peek (Next s) \<noteq> Some CHR ''-''"
    and "scanRun isNumber (Next s) [] = (ret, s')"
  shows "list_all (\<lambda>c. isNumber (Some c)) ret \<and>
         scanFD s =
           (if ret = [] then Inl (AtoiError ErrSyntax)
            else if 2 ^ 63 \<le> digitsValue ret 0 then Inl (AtoiError ErrRange)
            else Inr (FD (int (digitsValue ret 0)), s'))"
proof -
  from assms(2) have ret: "ret = takeWhile (\<lambda>c. isNumber (Some c)) (Next s)"
    by (simp add: scanRun_eq)
  then have digits: "list_all (\<lambda>c. isNumber (Some c)) ret"
    by (auto simp: list_all_iff dest: set_takeWhileD)
  from assms show ?thesis
    by (simp add: digits scanFD_def Atoi_digits [OF digits] Let_def)
qed

text \<open>
  Claim C5, as amended, at \<^verbatim>\<open>&12x\<close> and at \<^verbatim>\<open>&x\<close>.
\<close>

theorem scanFD_conversion_witness:
  "scanFD ''&12x'' = Inr (FD 12, ''x'') \<and> scanFD ''&x'' = Inl (AtoiError ErrSyntax)"
proof
  have p1: "Peek (Next ''&12x'') \<noteq> Some CHR ''-''" by simp
  have r1: "scanRun isNumber (Next ''&12x'') [] = (''12'', ''x'')"
    by (simp add: char_classes)
  show "scanFD ''&12x'' = Inr (FD 12, ''x'')"
    using scanFD_conversion [OF p1 r1] by simp
  have p2: "Peek (Next ''&x'') \<noteq> Some CHR ''-''" by simp
  have r2: "scanRun isNumber (Next ''&x'') [] = ([], ''x'')"
    by (simp add: char_classes)
  show "scanFD ''&x'' = Inl (AtoiError ErrSyntax)"
    using scanFD_conversion [OF p2 r2] by simp
qed

section \<open>Backslash in quoted regions\<close>

lemma sq_ident_char: "isSingleQuotedIdentChar (Some c) \<longleftrightarrow> c \<noteq> backslash \<and> c \<noteq> squote"
  by (auto simp: char_classes)

lemma dq_ident_char:
  "isDoubleQuotedIdentChar (Some c) \<longleftrightarrow> c \<noteq> backslash \<and> c \<noteq> dquote \<and> c \<noteq> CHR ''$''"
  by (auto simp: char_classes)

lemma var_char_not_special:
  "isVarChar (Some c) \<Longrightarrow> c \<noteq> backslash \<and> c \<noteq> dquote \<and> c \<noteq> squote \<and> c \<noteq> CHR ''$''"
  by (auto simp: char_classes)

lemma dropWhile_stops:
  "\<not> P b \<Longrightarrow> dropWhile P (xs @ b # rest) = dropWhile P xs @ b # rest"
  by (induction xs) auto

lemma scanSingleQuoted_loop_backslash:
  "scanSingleQuoted_loop (backslash # rest) acc = Inl ExpectIdentError"
  by (subst scanSingleQuoted_loop.simps)
     (simp add: scanSingleQuotedIdent_def sq_ident_char)

lemma scanDoubleQuoted_loop_backslash:
  "scanDoubleQuoted_loop (backslash # rest) acc = Inl ExpectIdentError"
  by (subst scanDoubleQuoted_loop.simps)
     (simp add: scanDoubleQuotedIdent_def dq_ident_char)

lemma scanSingleQuoted_loop_rejects:
  "squote \<notin> set pre \<Longrightarrow>
     scanSingleQuoted_loop (pre @ backslash # rest) acc = Inl ExpectIdentError"
proof (induction "length pre" arbitrary: pre acc rule: less_induct)
  case less
  show ?case
  proof (cases pre)
    case Nil
    then show ?thesis by (simp add: scanSingleQuoted_loop_backslash)
  next
    case (Cons c cs)
    show ?thesis
    proof (cases "c = backslash")
      case True
      with Cons show ?thesis by (simp add: scanSingleQuoted_loop_backslash)
    next
      case False
      let ?P = "\<lambda>c. isSingleQuotedIdentChar (Some c)"
      from False Cons less.prems have c: "?P c"
        by (auto simp: sq_ident_char)
      have drop: "dropWhile ?P (pre @ backslash # rest) = dropWhile ?P pre @ backslash # rest"
        by (rule dropWhile_stops) (simp add: sq_ident_char)
      have shorter: "length (dropWhile ?P pre) < length pre"
        using c Cons by (simp add: length_dropWhile_le less_Suc_eq_le)
      have noq: "squote \<notin> set (dropWhile ?P pre)"
        using less.prems by (auto dest: set_dropWhileD)
      have "scanSingleQuoted_loop (pre @ backslash # rest) acc =
          scanSingleQuoted_loop (dropWhile ?P pre @ backslash # rest)
            (acc @ [Ident (takeWhile ?P (pre @ backslash # rest))])"
        using c Cons drop
        by (subst scanSingleQuoted_loop.simps)
           (simp add: scanSingleQuotedIdent_def scanRun_eq)
      also have "\<dots> = Inl ExpectIdentError"
        by (rule less.hyps [OF shorter noq])
      finally show ?thesis .
    qed
  qed
qed

lemma scanDoubleQuoted_loop_rejects:
  "dquote \<notin> set pre \<Longrightarrow>
     scanDoubleQuoted_loop (pre @ backslash # rest) acc = Inl ExpectIdentError \<or>
     CHR ''$'' \<in> set pre \<and>
       scanDoubleQuoted_loop (pre @ backslash # rest) acc = Inl ExpectVarNameError"
proof (induction "length pre" arbitrary: pre acc rule: less_induct)
  case less
  show ?case
  proof (cases pre)
    case Nil
    then show ?thesis by (simp add: scanDoubleQuoted_loop_backslash)
  next
    case (Cons c cs)
    with less.prems have cq: "c \<noteq> dquote" and csq: "dquote \<notin> set cs"
      by auto
    consider (bs) "c = backslash" | (var) "c = CHR ''$''"
      | (lit) "isDoubleQuotedIdentChar (Some c)"
      using cq by (auto simp: dq_ident_char)
    then show ?thesis
    proof cases
      case bs
      with Cons show ?thesis by (simp add: scanDoubleQuoted_loop_backslash)
    next
      case var
      let ?V = "\<lambda>c. isVarChar (Some c)"
      have drop: "dropWhile ?V (cs @ backslash # rest) = dropWhile ?V cs @ backslash # rest"
        by (rule dropWhile_stops) (auto dest: var_char_not_special)
      have shorter: "length (dropWhile ?V cs) < length pre"
        using Cons by (simp add: length_dropWhile_le less_Suc_eq_le)
      have noq: "dquote \<notin> set (dropWhile ?V cs)"
        using csq by (auto dest: set_dropWhileD)
      have step: "scanDoubleQuoted_loop (pre @ backslash # rest) acc =
          (if takeWhile ?V (cs @ backslash # rest) = [] then Inl ExpectVarNameError
           else scanDoubleQuoted_loop (dropWhile ?V cs @ backslash # rest)
                  (acc @ [VarExpr (takeWhile ?V (cs @ backslash # rest))]))"
        using var Cons drop
        by (subst scanDoubleQuoted_loop.simps)
           (simp add: scanVar_def scanRun_eq dq_ident_char)
      from less.hyps [OF shorter noq] var Cons show ?thesis
        unfolding step by auto
    next
      case lit
      let ?P = "\<lambda>c. isDoubleQuotedIdentChar (Some c)"
      have drop: "dropWhile ?P (pre @ backslash # rest) = dropWhile ?P pre @ backslash # rest"
        by (rule dropWhile_stops) (simp add: dq_ident_char)
      have shorter: "length (dropWhile ?P pre) < length pre"
        using lit Cons by (simp add: length_dropWhile_le less_Suc_eq_le)
      have noq: "dquote \<notin> set (dropWhile ?P pre)"
        using less.prems by (auto dest: set_dropWhileD)
      have step: "scanDoubleQuoted_loop (pre @ backslash # rest) acc =
          scanDoubleQuoted_loop (dropWhile ?P pre @ backslash # rest)
            (acc @ [Ident (takeWhile ?P (pre @ backslash # rest))])"
        using lit Cons drop
        by (subst scanDoubleQuoted_loop.simps)
           (simp add: scanDoubleQuotedIdent_def scanRun_eq)
      from less.hyps [OF shorter noq] show ?thesis
        unfolding step by (auto dest: set_dropWhileD)
    qed
  qed
qed

text \<open>
  Claim C1 as stated fails. A backslash is in the special set of either quoting, so
  it ends the literal run before it; the scanner then takes its default branch, which
  scans a literal run again, finds none at the backslash, and fails with the
  expected-IDENT error. Both \<^verbatim>\<open>"a\b"\<close> and \<^verbatim>\<open>'a\b'\<close> are rejected.
\<close>

theorem quoted_backslash_counterexample:
  "scanDoubleQuoted [dquote, CHR ''a'', backslash, CHR ''b'', dquote] = Inl ExpectIdentError \<and>
   scanSingleQuoted [squote, CHR ''a'', backslash, CHR ''b'', squote] = Inl ExpectIdentError \<and>
   mainLex [dquote, CHR ''a'', backslash, CHR ''b'', dquote] \<lparr>str = [], expr = []\<rparr> =
     Some (Inl ExpectIdentError)"
  by (subst mainLex.simps) (simp add: scan_defs char_classes)

text \<open>
  Claim C1, as amended: a quoted region with a backslash before its closing quote is
  rejected. The single-quote scanner fails with the expected-IDENT error; the
  double-quote scanner fails with the expected-IDENT error, or with the error of a
  variable reference without a name when such a \<^verbatim>\<open>$\<close> stands before the backslash.
  No \<^verbatim>\<open>StrExpr\<close> is returned. (\<open>q\<close> is the opening quote, which the scanner skips
  unseen.)
\<close>

theorem quoted_backslash_rejected:
  "(squote \<notin> set pre \<longrightarrow>
      scanSingleQuoted (q # pre @ backslash # rest) = Inl ExpectIdentError) \<and>
   (dquote \<notin> set pre \<longrightarrow>
      scanDoubleQuoted (q # pre @ backslash # rest) = Inl ExpectIdentError \<or>
      CHR ''$'' \<in> set pre \<and>
        scanDoubleQuoted (q # pre @ backslash # rest) = Inl ExpectVarNameError)"
  using scanSingleQuoted_loop_rejects [of pre rest "[]"]
    scanDoubleQuoted_loop_rejects [of pre rest "[]"]
  by (simp add: scanSingleQuoted_def scanDoubleQuoted_def)

text \<open>
  Claim C1, as amended, at \<^verbatim>\<open>'a\b'\<close> and \<^verbatim>\<open>"a\b"\<close>.
\<close>

theorem quoted_backslash_rejected_witness:
  "scanSingleQuoted [squote, CHR ''a'', backslash, CHR ''b'', squote] = Inl ExpectIdentError \<and>
   scanDoubleQuoted [dquote, CHR ''a'', backslash, CHR ''b'', dquote] = Inl ExpectIdentError"
  using quoted_backslash_rejected [where pre = "''a''" and rest = "[CHR ''b'', squote]" and q = squote]
    quoted_backslash_rejected [where pre = "''a''" and rest = "[CHR ''b'', dquote]" and q = dquote]
  by simp

section \<open>The payload of a word token\<close>

text \<open>
  Claim C2 says that a word token never carries an empty word and that a lone special
  character such as \<^verbatim>\<open>&\<close> gives a bare punctuation token. The branches of the word
  assembler for \<^verbatim>\<open>(\<close> and \<^verbatim>\<open>)\<close> test the length of the word and return the bare
  character when it is empty; the branch for the other special characters returns
  the word token without that test. On \<^verbatim>\<open>&\<close> the next-token operation returns the
  word token with an empty payload and reads nothing, so the next call returns the
  same again. The same branch returns the empty word for \<^verbatim>\<open>""\<close>.
\<close>

theorem empty_word_token:
  "mainLex ''&'' lval = Some (Inr (STR_tok, lval\<lparr>str := []\<rparr>, ''&'')) \<and>
   mainLex ''&'' (lval\<lparr>str := []\<rparr>) = Some (Inr (STR_tok, lval\<lparr>str := []\<rparr>, ''&'')) \<and>
   mainLex [dquote, dquote] lval = Some (Inr (STR_tok, lval\<lparr>str := []\<rparr>, [])) \<and>
   mainLex ''('' lval = Some (Inr (Code (Some CHR ''(''), lval\<lparr>str := []\<rparr>, []))"
proof (intro conjI)
  show "mainLex ''&'' lval = Some (Inr (STR_tok, lval\<lparr>str := []\<rparr>, ''&''))"
    by (subst mainLex.simps) (simp add: scan_defs char_classes)
  show "mainLex ''&'' (lval\<lparr>str := []\<rparr>) = Some (Inr (STR_tok, lval\<lparr>str := []\<rparr>, ''&''))"
    by (subst mainLex.simps) (simp add: scan_defs char_classes)
  show "mainLex [dquote, dquote] lval = Some (Inr (STR_tok, lval\<lparr>str := []\<rparr>, []))"
    by (subst mainLex.simps) (simp add: scan_defs char_classes)
  show "mainLex ''('' lval = Some (Inr (Code (Some CHR ''(''), lval\<lparr>str := []\<rparr>, []))"
    by (subst mainLex.simps) (simp add: scan_defs char_classes)
qed

section \<open>Bracketing of a walk\<close>

lemma never_stops_call:
  assumes "never_stops v" and "node \<noteq> NilNode"
  obtains f st1 where "call v node (st, log) = (Some f, (st1, log @ [node]))"
    and "never_stops f"
proof -
  from assms have "\<exists>f. fst (visit v node st) = Some f \<and> never_stops f"
    by (subst (asm) never_stops.simps) blast
  then obtain f where f: "fst (visit v node st) = Some f" and n: "never_stops f"
    by blast
  from f have "call v node (st, log) = (Some f, (snd (visit v node st), log @ [node]))"
    by (cases "visit v node st") (simp add: call_def)
  then show thesis
    using n by (rule that)
qed

lemma call_exit: "snd (call v NilNode (st, log)) = (snd (visit v NilNode st), log @ [NilNode])"
  by (simp add: call_def split: prod.splits)

lemma walks_skip: "walks_to (\<lambda>v w. Inr w) []"
  unfolding walks_to_def by simp

lemma walks_seq:
  assumes "walks_to r1 tr1" and "walks_to r2 tr2"
  shows "walks_to (\<lambda>v w. case r1 v w of Inl p \<Rightarrow> Inl p | Inr w2 \<Rightarrow> r2 v w2) (tr1 @ tr2)"
  unfolding walks_to_def
proof (intro allI impI)
  fix v :: "'a Visitor" and st log
  assume v: "never_stops v"
  with assms(1) obtain st1 where r1: "r1 (Some v) (st, log) = Inr (st1, log @ tr1)"
    unfolding walks_to_def by blast
  from v assms(2) obtain st2
    where r2: "r2 (Some v) (st1, log @ tr1) = Inr (st2, (log @ tr1) @ tr2)"
    unfolding walks_to_def by blast
  from r1 r2
  show "\<exists>st'. (case r1 (Some v) (st, log) of Inl p \<Rightarrow> Inl p
                | Inr w2 \<Rightarrow> r2 (Some v) w2) = Inr (st', log @ tr1 @ tr2)"
    by simp
qed

lemma walks_around:
  assumes "node \<noteq> NilNode" and "walks_to body tr"
  shows "walks_to
     (\<lambda>v w. case v of
        None \<Rightarrow> Inl NilFuncCall
      | Some vf \<Rightarrow>
          (case call vf node w of
             (f, w1) \<Rightarrow>
               (case body f w1 of
                  Inl p \<Rightarrow> Inl p
                | Inr w' \<Rightarrow> Inr (snd (call vf NilNode w'))))) (node # tr @ [NilNode])"
  unfolding walks_to_def
proof (intro allI impI)
  fix v :: "'a Visitor" and st log
  assume v: "never_stops v"
  from never_stops_call [OF v assms(1), of st log] obtain f st1
    where c: "call v node (st, log) = (Some f, (st1, log @ [node]))" and f: "never_stops f"
    by blast
  from f assms(2) obtain st2
    where b: "body (Some f) (st1, log @ [node]) = Inr (st2, (log @ [node]) @ tr)"
    unfolding walks_to_def by blast
  from c b
  show "\<exists>st'.
      (case Some v of
         None \<Rightarrow> Inl NilFuncCall
       | Some vf \<Rightarrow>
           (case call vf node (st, log) of
              (f, w1) \<Rightarrow>
                (case body f w1 of
                   Inl p \<Rightarrow> Inl p
                 | Inr w' \<Rightarrow> Inr (snd (call vf NilNode w'))))) =
        Inr (st', log @ node # tr @ [NilNode])"
    by (simp add: call_exit)
qed

lemma walks_to_cong:
  assumes "\<And>v w. run v w = run' v w" and "tr = tr'" and "walks_to run' tr'"
  shows "walks_to run tr"
proof -
  from assms(1) have "run = run'"
    by (intro ext)
  with assms(2,3) show ?thesis
    by simp
qed

lemma walkRange_to:
  "(\<And>n. n \<in> set ns \<Longrightarrow> walks_to (\<lambda>v :: 'st Visitor option. Walk v n) (brackets n)) \<Longrightarrow>
     walks_to (\<lambda>v :: 'st Visitor option. walkRange v ns) (concat (map brackets ns))"
proof (induction ns)
  case Nil
  show ?case
    by (rule walks_to_cong [OF _ _ walks_skip]) simp_all
next
  case (Cons n ns)
  have a: "walks_to (\<lambda>v :: 'st Visitor option. Walk v n) (brackets n)"
    by (rule Cons.prems) simp
  have b: "walks_to (\<lambda>v :: 'st Visitor option. walkRange v ns) (concat (map brackets ns))"
    by (rule Cons.IH) (simp add: Cons.prems)
  show ?case
    by (rule walks_to_cong [OF _ _ walks_seq [OF a b]]) simp_all
qed

lemma walkStmts_to:
  assumes "length ns > 0 \<Longrightarrow>
      walks_to (\<lambda>v :: 'st Visitor option. Walk v (Stmts ns)) (brackets (Stmts ns))"
  shows "walks_to (\<lambda>v :: 'st Visitor option. walkStmts v ns)
      (concat (map brackets (if length ns > 0 then [Stmts ns] else [])))"
proof (cases "length ns > 0")
  case True
  from assms [OF True] show ?thesis
    by (rule walks_to_cong [rotated 2]) (use True in simp_all)
next
  case False
  show ?thesis
    by (rule walks_to_cong [OF _ _ walks_skip]) (use False in simp_all)
qed

lemma walkExprs_to:
  assumes "length ns > 0 \<Longrightarrow>
      walks_to (\<lambda>v :: 'st Visitor option. Walk v (Exprs ns)) (brackets (Exprs ns))"
  shows "walks_to (\<lambda>v :: 'st Visitor option. walkExprs v ns)
      (concat (map brackets (if length ns > 0 then [Exprs ns] else [])))"
proof (cases "length ns > 0")
  case True
  from assms [OF True] show ?thesis
    by (rule walks_to_cong [rotated 2]) (use True in simp_all)
next
  case False
  show ?thesis
    by (rule walks_to_cong [OF _ _ walks_skip]) (use False in simp_all)
qed


lemma Walk_to: "walks_to (\<lambda>v :: 'st Visitor option. Walk v node) (brackets node)"
proof (induction node rule: brackets.induct)
  case (1 node)
  note IH = "1.IH"
  show ?case
  proof (cases node)
    case NilNode
    show ?thesis
      unfolding NilNode
      by (rule walks_to_cong [OF _ _ walks_skip]) (simp_all add: Walk.simps brackets.simps)
  next
    case (Leaf e)
    show ?thesis
      unfolding Leaf
      by (rule walks_to_cong [OF _ _ walks_around [of "Leaf e", OF _ walks_skip]])
         (simp_all add: Walk.simps [of _ "Leaf e"] brackets.simps [of "Leaf e"]
            split: option.splits prod.splits)
  next
    case (Exprs ns)
    have "walks_to (\<lambda>v :: 'st Visitor option. walkRange v ns) (concat (map brackets ns))"
      by (rule walkRange_to) (rule IH, simp_all add: Exprs)
    then show ?thesis
      unfolding Exprs
      by (rule walks_to_cong [OF _ _ walks_around [of "Exprs ns"], rotated 3])
         (simp_all add: Walk.simps [of _ "Exprs ns"] brackets.simps [of "Exprs ns"]
            split: option.splits prod.splits)
  next
    case (Stmts ns)
    have "walks_to (\<lambda>v :: 'st Visitor option. walkRange v ns) (concat (map brackets ns))"
      by (rule walkRange_to) (rule IH, simp_all add: Stmts)
    then show ?thesis
      unfolding Stmts
      by (rule walks_to_cong [OF _ _ walks_around [of "Stmts ns"], rotated 3])
         (simp_all add: Walk.simps [of _ "Stmts ns"] brackets.simps [of "Stmts ns"]
            split: option.splits prod.splits)
  next
    case (CmdStmt cmd args)
    have a: "walks_to (\<lambda>v :: 'st Visitor option. Walk v cmd) (brackets cmd)"
      by (rule IH) (simp_all add: CmdStmt)
    have b: "walks_to (\<lambda>v :: 'st Visitor option. walkExprs v args)
        (concat (map brackets (if length args > 0 then [Exprs args] else [])))"
      by (rule walkExprs_to) (rule IH, simp_all add: CmdStmt)
    from walks_seq [OF a b] show ?thesis
      unfolding CmdStmt
      by (rule walks_to_cong [OF _ _ walks_around [of "CmdStmt cmd args"], rotated 3])
         (simp_all add: Walk.simps [of _ "CmdStmt cmd args"]
            brackets.simps [of "CmdStmt cmd args"] split: option.splits prod.splits)
  next
    case (BeginStmt body)
    have "walks_to (\<lambda>v :: 'st Visitor option. Walk v (Stmts body)) (brackets (Stmts body))"
      by (rule IH) (simp_all add: BeginStmt)
    then show ?thesis
      unfolding BeginStmt
      by (rule walks_to_cong [OF _ _ walks_around [of "BeginStmt body"], rotated 3])
         (simp_all add: Walk.simps [of _ "BeginStmt body"]
            brackets.simps [of "BeginStmt body"] split: option.splits prod.splits)
  next
    case (IfStmt cond body els)
    have a: "walks_to (\<lambda>v :: 'st Visitor option. Walk v cond) (brackets cond)"
      by (rule IH) (simp_all add: IfStmt)
    have b: "walks_to (\<lambda>v :: 'st Visitor option. walkStmts v body)
        (concat (map brackets (if length body > 0 then [Stmts body] else [])))"
      by (rule walkStmts_to) (rule IH, simp_all add: IfStmt)
    have c: "walks_to (\<lambda>v :: 'st Visitor option. walkStmts v els)
        (concat (map brackets (if length els > 0 then [Stmts els] else [])))"
      by (rule walkStmts_to) (rule IH, simp_all add: IfStmt)
    from walks_seq [OF a walks_seq [OF b c]] show ?thesis
      unfolding IfStmt
      by (rule walks_to_cong [OF _ _ walks_around [of "IfStmt cond body els"], rotated 3])
         (simp_all add: Walk.simps [of _ "IfStmt cond body els"]
            brackets.simps [of "IfStmt cond body els"] split: option.splits prod.splits)
  next
    case (FunctionStmt args body)
    have a: "walks_to (\<lambda>v :: 'st Visitor option. walkExprs v args)
        (concat (map brackets (if length args > 0 then [Exprs args] else [])))"
      by (rule walkExprs_to) (rule IH, simp_all add: FunctionStmt)
    have b: "walks_to (\<lambda>v :: 'st Visitor option. walkStmts v body)
        (concat (map brackets (if length body > 0 then [Stmts body] else [])))"
      by (rule walkStmts_to) (rule IH, simp_all add: FunctionStmt)
    from walks_seq [OF a b] show ?thesis
      unfolding FunctionStmt
      by (rule walks_to_cong [OF _ _ walks_around [of "FunctionStmt args body"], rotated 3])
         (simp_all add: Walk.simps [of _ "FunctionStmt args body"]
            brackets.simps [of "FunctionStmt args body"] split: option.splits prod.splits)
  next
    case (PipeStmt lhs rhs)
    have a: "walks_to (\<lambda>v :: 'st Visitor option. Walk v lhs) (brackets lhs)"
      by (rule IH) (simp_all add: PipeStmt)
    have b: "walks_to (\<lambda>v :: 'st Visitor option. Walk v rhs) (brackets rhs)"
      by (rule IH) (simp_all add: PipeStmt)
    from walks_seq [OF a b] show ?thesis
      unfolding PipeStmt
      by (rule walks_to_cong [OF _ _ walks_around [of "PipeStmt lhs rhs"], rotated 3])
         (simp_all add: Walk.simps [of _ "PipeStmt lhs rhs"]
            brackets.simps [of "PipeStmt lhs rhs"] split: option.splits prod.splits)
  next
    case (RedirectStmt lhs rhs)
    have a: "walks_to (\<lambda>v :: 'st Visitor option. Walk v lhs) (brackets lhs)"
      by (rule IH) (simp_all add: RedirectStmt)
    have b: "walks_to (\<lambda>v :: 'st Visitor option. Walk v rhs) (brackets rhs)"
      by (rule IH) (simp_all add: RedirectStmt)
    from walks_seq [OF a b] show ?thesis
      unfolding RedirectStmt
      by (rule walks_to_cong [OF _ _ walks_around [of "RedirectStmt lhs rhs"], rotated 3])
         (simp_all add: Walk.simps [of _ "RedirectStmt lhs rhs"]
            brackets.simps [of "RedirectStmt lhs rhs"] split: option.splits prod.splits)
  qed
qed


lemma nested_append: "nested d1 a \<Longrightarrow> nested d2 b \<Longrightarrow> nested (d1 + d2) (a @ b)"
proof (induction a arbitrary: d1)
  case Nil
  then show ?case by simp
next
  case (Cons n a)
  show ?case
  proof (cases "n = NilNode")
    case True
    with Cons.prems have d: "0 < d1" and a: "nested (d1 - 1) a"
      by simp_all
    from Cons.IH [OF a Cons.prems(2)] d True show ?thesis
      by simp
  next
    case False
    with Cons.prems have "nested (Suc d1) a"
      by simp
    from Cons.IH [OF this Cons.prems(2)] False show ?thesis
      by simp
  qed
qed

lemma nested_counts: "nested d tr \<Longrightarrow> exits tr = entries tr + d"
  by (induction tr arbitrary: d) (auto simp: exits_def entries_def split: if_splits)

lemma nested_bracket:
  "node \<noteq> NilNode \<Longrightarrow> nested 0 inner \<Longrightarrow> nested 0 (node # inner @ [NilNode])"
  using nested_append [of 0 inner 1 "[NilNode]"] by simp

lemma nested_concat: "(\<And>t. t \<in> set ts \<Longrightarrow> nested 0 t) \<Longrightarrow> nested 0 (concat ts)"
proof (induction ts)
  case Nil
  show ?case by simp
next
  case (Cons t ts)
  have "nested 0 t" and "nested 0 (concat ts)"
    using Cons by simp_all
  from nested_append [OF this] show ?case
    by simp
qed

lemma brackets_nested: "nested 0 (brackets node)"
proof (induction node rule: brackets.induct)
  case (1 node)
  show ?case
  proof (cases "node = NilNode")
    case True
    then show ?thesis
      by (simp add: brackets.simps)
  next
    case False
    have "nested 0 (concat (map brackets (children node)))"
      by (rule nested_concat) (auto intro: "1.IH" [OF False])
    from nested_bracket [OF False this] False show ?thesis
      by (simp add: brackets.simps [of node])
  qed
qed

lemma never_stops_inspector:
  assumes "\<And>node st. node \<noteq> NilNode \<Longrightarrow> fst (f node st)"
  shows "never_stops (inspector_visit f)"
proof (coinduction)
  case never_stops
  have "\<exists>g. fst (visit (inspector_visit f) node st) = Some g \<and> g = inspector_visit f"
    if "node \<noteq> NilNode" for node st
    using assms [OF that, of st] by (cases "f node st") simp
  then show ?case
    by blast
qed

text \<open>
  Claim C9. For every AST and every visitor that never signals stop, the walk
  returns and the calls it makes are exactly the bracketing of the node: its entry,
  then the complete bracketing of each child that the walk descends into, in order,
  then its exit. There are as many entry calls as exit calls, and the calls are well
  nested.
\<close>

theorem walk_bracketing:
  fixes v :: "'st Visitor"
  assumes "never_stops v"
  shows "(\<exists>st'. Walk (Some v) node (st, log) = Inr (st', log @ brackets node)) \<and>
         entries (brackets node) = exits (brackets node) \<and>
         nested 0 (brackets node) \<and>
         (node \<noteq> NilNode \<longrightarrow>
            brackets node = node # concat (map brackets (children node)) @ [NilNode])"
proof (intro conjI impI)
  have "walks_to (\<lambda>v :: 'st Visitor option. Walk v node) (brackets node)"
    by (rule Walk_to)
  with assms show "\<exists>st'. Walk (Some v) node (st, log) = Inr (st', log @ brackets node)"
    unfolding walks_to_def by blast
  show "nested 0 (brackets node)"
    by (rule brackets_nested)
  from nested_counts [OF this] show "entries (brackets node) = exits (brackets node)"
    by simp
next
  assume "node \<noteq> NilNode"
  then show "brackets node = node # concat (map brackets (children node)) @ [NilNode]"
    by (simp add: brackets.simps [of node])
qed

text \<open>
  Claim C9 at a pipeline of a word and an empty block, walked with an inspector that
  always says true.
\<close>

theorem walk_bracketing_witness:
  "(\<exists>st'. Walk (Some (inspector_visit (\<lambda>node st. (True, st))))
       (PipeStmt (Leaf [Ident ''a'']) (BeginStmt [])) ((), []) =
       Inr (st', [] @ brackets (PipeStmt (Leaf [Ident ''a'']) (BeginStmt [])))) \<and>
   brackets (PipeStmt (Leaf [Ident ''a'']) (BeginStmt [])) =
     [PipeStmt (Leaf [Ident ''a'']) (BeginStmt []), Leaf [Ident ''a''], NilNode,
      BeginStmt [], Stmts [], NilNode, NilNode, NilNode] \<and>
   entries (brackets (PipeStmt (Leaf [Ident ''a'']) (BeginStmt []))) = 4 \<and>
   exits (brackets (PipeStmt (Leaf [Ident ''a'']) (BeginStmt []))) = 4"
proof (intro conjI)
  have "never_stops (inspector_visit (\<lambda>node (st :: unit). (True, st)))"
    by (rule never_stops_inspector) simp
  from walk_bracketing [OF this, of "PipeStmt (Leaf [Ident ''a'']) (BeginStmt [])" "()" "[]"]
  show "\<exists>st'. Walk (Some (inspector_visit (\<lambda>node st. (True, st))))
       (PipeStmt (Leaf [Ident ''a'']) (BeginStmt [])) ((), []) =
       Inr (st', [] @ brackets (PipeStmt (Leaf [Ident ''a'']) (BeginStmt [])))"
    by blast
  show b: "brackets (PipeStmt (Leaf [Ident ''a'']) (BeginStmt [])) =
     [PipeStmt (Leaf [Ident ''a'']) (BeginStmt []), Leaf [Ident ''a''], NilNode,
      BeginStmt [], Stmts [], NilNode, NilNode, NilNode]"
    by (simp add: brackets.simps)
  show "entries (brackets (PipeStmt (Leaf [Ident ''a'']) (BeginStmt []))) = 4"
    unfolding b by (simp add: entries_def)
  show "exits (brackets (PipeStmt (Leaf [Ident ''a'']) (BeginStmt []))) = 4"
    unfolding b by (simp add: exits_def)
qed

end
